theory Spec2Isabelle
  imports Complex_Main "HOL-Library.Word"
begin

section \<open>The container tree of con.c\<close>

text \<open>
  A shallow embedding of \<^verbatim>\<open>src/con.c\<close>. A \<^verbatim>\<open>Con *\<close> is an address (a natural
  number) or NULL (\<open>None\<close>); the objects live in a heap that maps every address to a
  \<open>con\<close> record, so that two pointers to the same container see the same fields.
  Every intrusive \<^verbatim>\<open>TAILQ\<close> is the list of the addresses linked in it, head first.
  Functions that dereference NULL or fail an \<^verbatim>\<open>assert\<close> return \<open>Inl\<close> of a fault.
  Loops and recursions that follow pointers take fuel: \<open>None\<close> means that the fuel ran
  out before the C function returned.
\<close>

subsection \<open>Data\<close>

type_synonym addr = nat

datatype con_type = CT_ROOT | CT_OUTPUT | CT_CON | CT_FLOATING_CON | CT_WORKSPACE

datatype orientation_t = NO_ORIENTATION | HORIZ | VERT

datatype fullscreen_mode_t = CF_NONE | CF_OUTPUT

datatype window_action = WINDOW_ADD | WINDOW_REMOVE

datatype fault = Assertion_failed | Null_dereference | Out_of_bounds

text \<open>
  The fields of \<^verbatim>\<open>struct Con\<close> that con.c reads or writes in the functions below.
  \<open>percent\<close> is a C \<^verbatim>\<open>double\<close>, taken here as an exact real number: rounding is
  not modelled. \<open>window\<close> holds the id of the \<^verbatim>\<open>i3Window\<close> the pointer leads to.
\<close>

record con =
  type :: con_type
  name :: string
  orientation :: orientation_t
  percent :: real
  window :: "nat option"
  fullscreen_mode :: fullscreen_mode_t
  urgent :: bool
  parent :: "addr option"
  nodes_head :: "addr list"
  floating_head :: "addr list"
  focus_head :: "addr list"
  swallow_head :: "nat list"

text \<open>
  Modelled from the spec: the collaborators (\<^verbatim>\<open>x_con_init\<close> of x.c, the xcb requests,
  \<^verbatim>\<open>workspace_update_urgent_flag\<close> of workspace.c) are not among the sources. The spec
  gives them as calls at the boundary of the core, so a call is recorded, in call order,
  and changes nothing in the tree.
\<close>

datatype atom = NET_WM_STATE_FULLSCREEN

datatype x_event =
    X_con_init addr
  | Xcb_change_window_attributes addr string
  | Workspace_update_urgent_flag addr
  | Xcb_change_property nat "atom list"

text \<open>
  The globals: the heap, the registry \<^verbatim>\<open>all_cons\<close>, the pointer \<^verbatim>\<open>focused\<close>, the
  static counter \<^verbatim>\<open>cnt\<close> of \<^verbatim>\<open>con_new\<close>, the next address the allocator hands out,
  and the record of collaborator calls.
\<close>

record state =
  heap :: "addr \<Rightarrow> con"
  all_cons :: "addr list"
  focused :: "addr option"
  cnt :: nat
  next_free :: addr
  x_log :: "x_event list"

definition colors :: "string list" where
  "colors = [''#ff0000'', ''#00FF00'', ''#0000FF'', ''#ff00ff'', ''#00ffff'',
             ''#ffff00'', ''#aa0000'', ''#00aa00'', ''#0000aa'', ''#aa00aa'']"

text \<open>
  Modelled from the spec: the enumerations of data.h are not among the sources. Memory
  from \<^verbatim>\<open>scalloc\<close> is zeroed, and the spec gives the defaults of a new node as
  orientation None, no window, fullscreen None, urgent false; so the zero enumerators
  are taken to be \<^verbatim>\<open>NO_ORIENTATION\<close> and \<^verbatim>\<open>CF_NONE\<close>. The zeroed \<^verbatim>\<open>type\<close> and
  \<^verbatim>\<open>name\<close> are overwritten by \<^verbatim>\<open>con_new\<close> before anything reads them.
\<close>

definition zeroed_con :: con where
  "zeroed_con = \<lparr>type = CT_ROOT, name = [], orientation = NO_ORIENTATION, percent = 0,
     window = None, fullscreen_mode = CF_NONE, urgent = False, parent = None,
     nodes_head = [], floating_head = [], focus_head = [], swallow_head = []\<rparr>"

text \<open>A write through a pointer: the object at \<open>a\<close> becomes \<open>f\<close> of what it was.\<close>

definition poke :: "addr \<Rightarrow> (con \<Rightarrow> con) \<Rightarrow> state \<Rightarrow> state" where
  "poke a f s = s\<lparr>heap := (heap s)(a := f (heap s a))\<rparr>"

definition call_x :: "x_event \<Rightarrow> state \<Rightarrow> state" where
  "call_x e s = s\<lparr>x_log := x_log s @ [e]\<rparr>"

subsection \<open>The queue macros\<close>

text \<open>
  Modelled from the spec: queue.h is not among the sources. The spec describes the
  queues as ordered sequences: inserting at the tail appends, inserting at the head
  prepends, removing unlinks the element. The macros make no check: removing an element
  that is not linked reports nothing, and at this level leaves the sequence as it is.
\<close>

definition TAILQ_INSERT_TAIL :: "addr list \<Rightarrow> addr \<Rightarrow> addr list" where
  "TAILQ_INSERT_TAIL q elm = q @ [elm]"

definition TAILQ_INSERT_HEAD :: "addr list \<Rightarrow> addr \<Rightarrow> addr list" where
  "TAILQ_INSERT_HEAD q elm = elm # q"

definition TAILQ_REMOVE :: "addr list \<Rightarrow> addr \<Rightarrow> addr list" where
  "TAILQ_REMOVE q elm = remove1 elm q"

subsection \<open>Creating, attaching, detaching\<close>

definition con_attach :: "addr \<Rightarrow> addr \<Rightarrow> state \<Rightarrow> state" where
  "con_attach c p s =
    (let s1 = poke c (\<lambda>x. x\<lparr>parent := Some p\<rparr>) s;
         s2 = poke p (\<lambda>x. x\<lparr>nodes_head := TAILQ_INSERT_TAIL (nodes_head x) c\<rparr>) s1
     in poke p (\<lambda>x. x\<lparr>focus_head := TAILQ_INSERT_TAIL (focus_head x) c\<rparr>) s2)"

text \<open>
  \<^verbatim>\<open>con_new\<close>: the name is first set to the empty string and then to the colour at
  \<^verbatim>\<open>cnt\<close>; the counter wraps at the number of colours. \<^verbatim>\<open>x_con_init\<close> (x.c, not among
  the sources) realises the frame and is recorded as a call.
\<close>

definition con_new :: "addr option \<Rightarrow> state \<Rightarrow> fault + addr \<times> state" where
  "con_new parent_arg s =
    (let new = next_free s;
         s1 = s\<lparr>heap := (heap s)(new := zeroed_con), next_free := Suc new\<rparr>;
         s2 = s1\<lparr>all_cons := TAILQ_INSERT_TAIL (all_cons s1) new\<rparr>;
         s3 = poke new (\<lambda>x. x\<lparr>type := CT_CON\<rparr>) s2;
         s4 = poke new (\<lambda>x. x\<lparr>name := []\<rparr>) s3
     in if \<not> cnt s4 < length colors then Inl Out_of_bounds
        else
          let s5 = poke new (\<lambda>x. x\<lparr>name := colors ! cnt s4\<rparr>) s4;
              cp = colors ! cnt s4;
              s6 = s5\<lparr>cnt := cnt s5 + 1\<rparr>;
              s7 = (if cnt s6 mod length colors = 0 then s6\<lparr>cnt := 0\<rparr> else s6);
              s8 = call_x (X_con_init new) s7;
              s9 = call_x (Xcb_change_window_attributes new cp) s8;
              s10 = poke new (\<lambda>x. x\<lparr>floating_head := [], nodes_head := [],
                                        focus_head := [], swallow_head := []\<rparr>) s9
          in case parent_arg of
               None \<Rightarrow> Inr (new, s10)
             | Some p \<Rightarrow> Inr (new, con_attach new p s10))"

definition con_detach :: "addr \<Rightarrow> state \<Rightarrow> fault + state" where
  "con_detach c s =
    (case parent (heap s c) of
       None \<Rightarrow> Inl Null_dereference
     | Some p \<Rightarrow>
         if type (heap s c) = CT_FLOATING_CON then
           let s1 = poke p (\<lambda>x. x\<lparr>floating_head := TAILQ_REMOVE (floating_head x) c\<rparr>) s
           in Inr (poke p (\<lambda>x. x\<lparr>focus_head := TAILQ_REMOVE (focus_head x) c\<rparr>) s1)
         else
           let s1 = poke p (\<lambda>x. x\<lparr>nodes_head := TAILQ_REMOVE (nodes_head x) c\<rparr>) s
           in Inr (poke p (\<lambda>x. x\<lparr>focus_head := TAILQ_REMOVE (focus_head x) c\<rparr>) s1))"

subsection \<open>Walking up: output and workspace\<close>

text \<open>
  The loop \<^verbatim>\<open>while (result != NULL && result->type != t) result = result->parent\<close>
  of \<^verbatim>\<open>con_get_output\<close> (\<open>t\<close> is \<^verbatim>\<open>CT_OUTPUT\<close>) and \<^verbatim>\<open>con_get_workspace\<close>
  (\<open>t\<close> is \<^verbatim>\<open>CT_WORKSPACE\<close>); one unit of fuel per test of the condition.
\<close>

fun ancestor_loop :: "nat \<Rightarrow> con_type \<Rightarrow> state \<Rightarrow> addr option \<Rightarrow> addr option option" where
  "ancestor_loop 0 t s result = None"
| "ancestor_loop (Suc n) t s None = Some None"
| "ancestor_loop (Suc n) t s (Some a) =
     (if type (heap s a) \<noteq> t then ancestor_loop n t s (parent (heap s a))
      else Some (Some a))"

definition assert_not_null :: "addr option option \<Rightarrow> (fault + addr) option" where
  "assert_not_null r =
     (case r of
        None \<Rightarrow> None
      | Some None \<Rightarrow> Some (Inl Assertion_failed)
      | Some (Some a) \<Rightarrow> Some (Inr a))"

definition con_get_output :: "nat \<Rightarrow> addr option \<Rightarrow> state \<Rightarrow> (fault + addr) option" where
  "con_get_output fuel c s = assert_not_null (ancestor_loop fuel CT_OUTPUT s c)"

definition con_get_workspace :: "nat \<Rightarrow> addr option \<Rightarrow> state \<Rightarrow> (fault + addr) option" where
  "con_get_workspace fuel c s = assert_not_null (ancestor_loop fuel CT_WORKSPACE s c)"

subsection \<open>Focus\<close>

text \<open>
  The end of \<^verbatim>\<open>con_focus\<close>, after the recursive call: the focus pointer, then the
  urgent flag and the notification of the workspace.
\<close>

definition con_focus_finish :: "nat \<Rightarrow> addr \<Rightarrow> state \<Rightarrow> (fault + state) option" where
  "con_focus_finish fuel c s =
    (let s1 = s\<lparr>focused := Some c\<rparr>
     in if urgent (heap s1 c) then
          let s2 = poke c (\<lambda>x. x\<lparr>urgent := False\<rparr>) s1
          in case con_get_workspace fuel (Some c) s2 of
               None \<Rightarrow> None
             | Some (Inl e) \<Rightarrow> Some (Inl e)
             | Some (Inr ws) \<Rightarrow> Some (Inr (call_x (Workspace_update_urgent_flag ws) s2))
        else Some (Inr s1))"

fun con_focus :: "nat \<Rightarrow> addr option \<Rightarrow> state \<Rightarrow> (fault + state) option" where
  "con_focus 0 c s = None"
| "con_focus (Suc n) None s = Some (Inl Assertion_failed)"
| "con_focus (Suc n) (Some c) s =
     (case parent (heap s c) of
        None \<Rightarrow> Some (Inl Null_dereference)
      | Some p \<Rightarrow>
          let s1 = poke p (\<lambda>x. x\<lparr>focus_head := TAILQ_REMOVE (focus_head x) c\<rparr>) s;
              s2 = poke p (\<lambda>x. x\<lparr>focus_head := TAILQ_INSERT_HEAD (focus_head x) c\<rparr>) s1
          in case parent (heap s2 c) of
               None \<Rightarrow> Some (Inl Null_dereference)
             | Some p' \<Rightarrow>
                 if parent (heap s2 p') \<noteq> None then
                   case con_focus n (Some p') s2 of
                     None \<Rightarrow> None
                   | Some (Inl e) \<Rightarrow> Some (Inl e)
                   | Some (Inr s3) \<Rightarrow> con_focus_finish n c s3
                 else con_focus_finish n c s2)"

subsection \<open>Fullscreen\<close>



definition push_net_wm_state :: "addr \<Rightarrow> state \<Rightarrow> state" where
  "push_net_wm_state c s =
    (case window (heap s c) of
       None \<Rightarrow> s
     | Some wid \<Rightarrow>
         let values = (if fullscreen_mode (heap s c) \<noteq> CF_NONE then [NET_WM_STATE_FULLSCREEN]
                       else [])
         in call_x (Xcb_change_property wid values) s)"


subsection \<open>Percentages\<close>

text \<open>
  \<^verbatim>\<open>con_fix_percent\<close>: the first loop counts the children in a C \<^verbatim>\<open>int\<close>, here a
  32-bit word read as a signed number; the second loop multiplies the positive
  percentages by the factor. Any action other than \<^verbatim>\<open>WINDOW_ADD\<close> takes the second
  formula. Its denominator is zero only when there is no child, and then no percentage is
  multiplied.
\<close>

definition fix_factor :: "window_action \<Rightarrow> 32 word \<Rightarrow> real" where
  "fix_factor action children =
    (if action = WINDOW_ADD then 1 - 1 / real_of_int (sint (children + 1))
     else 1 / (1 - 1 / real_of_int (sint (children + 1))))"

definition fix_child :: "real \<Rightarrow> state \<Rightarrow> addr \<Rightarrow> state" where
  "fix_child fix s child =
    (if percent (heap s child) \<le> 0 then s
     else poke child (\<lambda>x. x\<lparr>percent := percent x * fix\<rparr>) s)"

definition con_fix_percent :: "addr \<Rightarrow> window_action \<Rightarrow> state \<Rightarrow> state" where
  "con_fix_percent c action s =
    (let children = foldl (\<lambda>k child. k + 1) (0::32 word) (nodes_head (heap s c));
         fix = fix_factor action children
     in foldl (fix_child fix) s (nodes_head (heap s c)))"

subsection \<open>Paths and levels of the tree\<close>

text \<open>
  \<open>links s c xs\<close>: \<open>xs\<close> lists the containers reached from \<open>c\<close> by following
  \<^verbatim>\<open>parent\<close>, nearest first. \<open>root_path s c xs\<close>: moreover the last one reached (or
  \<open>c\<close> itself when \<open>xs\<close> is empty) has no parent: it is the root.
\<close>

fun links :: "state \<Rightarrow> addr \<Rightarrow> addr list \<Rightarrow> bool" where
  "links s c [] = True"
| "links s c (p # ps) = (parent (heap s c) = Some p \<and> links s p ps)"

fun root_path :: "state \<Rightarrow> addr \<Rightarrow> addr list \<Rightarrow> bool" where
  "root_path s c [] = (parent (heap s c) = None)"
| "root_path s c (p # ps) = (parent (heap s c) = Some p \<and> root_path s p ps)"

definition is_workspace :: "state \<Rightarrow> addr \<Rightarrow> bool" where
  "is_workspace s a = (type (heap s a) = CT_WORKSPACE)"

text \<open>
  Along a path (a container, then its parent, and so on): every container but the last
  is linked in the \<^verbatim>\<open>focus_head\<close> of the next.
\<close>

fun on_focus_lists :: "state \<Rightarrow> addr list \<Rightarrow> bool" where
  "on_focus_lists s (x # y # ys) = (x \<in> set (focus_head (heap s y)) \<and> on_focus_lists s (y # ys))"
| "on_focus_lists s ys = True"

text \<open>
  Along a path: every urgent container but the last has a workspace at or above it, so
  that \<^verbatim>\<open>con_get_workspace\<close> finds one.
\<close>

fun urgent_ok :: "state \<Rightarrow> addr list \<Rightarrow> bool" where
  "urgent_ok s (x # y # ys) =
     ((urgent (heap s x) \<longrightarrow> (\<exists>w \<in> set (x # y # ys). is_workspace s w)) \<and> urgent_ok s (y # ys))"
| "urgent_ok s ys = True"

text \<open>
  What \<^verbatim>\<open>con_focus\<close> does along a path to the root, without fuel: \<open>promote\<close> is
  the removal and the insertion at the head, \<open>finish\<close> the part after the recursive
  call, \<open>focus_path\<close> the whole.
\<close>

definition promote :: "addr \<Rightarrow> addr \<Rightarrow> state \<Rightarrow> state" where
  "promote p c s = poke p (\<lambda>x. x\<lparr>focus_head := c # remove1 c (focus_head x)\<rparr>) s"

definition finish :: "addr \<Rightarrow> addr list \<Rightarrow> state \<Rightarrow> state" where
  "finish c rest s =
    (let s1 = s\<lparr>focused := Some c\<rparr>
     in if urgent (heap s c) then
          let s2 = poke c (\<lambda>x. x\<lparr>urgent := False\<rparr>) s1
          in case find (is_workspace s) (c # rest) of
               None \<Rightarrow> s2
             | Some w \<Rightarrow> call_x (Workspace_update_urgent_flag w) s2
        else s1)"

fun focus_path :: "addr list \<Rightarrow> state \<Rightarrow> state" where
  "focus_path (c # p # ps) s = finish c (p # ps) (focus_path (p # ps) (promote p c s))"
| "focus_path ps s = s"

text \<open>
  \<open>kids s xs\<close>: the children of the containers \<open>xs\<close>, left to right.
  \<open>generation s k xs\<close>: the containers \<open>k\<close> levels below \<open>xs\<close>.
  \<open>level_order s h xs\<close>: \<open>xs\<close> and the \<open>h - 1\<close> levels below, level by level, each
  level left to right.
\<close>

definition kids :: "state \<Rightarrow> addr list \<Rightarrow> addr list" where
  "kids s xs = concat (map (\<lambda>a. nodes_head (heap s a)) xs)"

fun generation :: "state \<Rightarrow> nat \<Rightarrow> addr list \<Rightarrow> addr list" where
  "generation s 0 xs = xs"
| "generation s (Suc k) xs = generation s k (kids s xs)"




subsection \<open>Example states\<close>

text \<open>
  The state at start-up, and states built from it by the functions above; they serve
  as concrete inputs.
\<close>

definition init_state :: state where
  "init_state = \<lparr>heap = (\<lambda>a. zeroed_con), all_cons = [], focused = None, cnt = 0,
     next_free = 0, x_log = []\<rparr>"

definition after_new :: "addr option \<Rightarrow> state \<Rightarrow> state" where
  "after_new p s = (case con_new p s of Inl e \<Rightarrow> s | Inr (a, s') \<Rightarrow> s')"


text \<open>A root (address 0) and one child (address 1).\<close>

definition root_and_child :: state where
  "root_and_child = after_new (Some 0) (after_new None init_state)"


text \<open>A root with the children 1 and 2; the first has half of the space, the second none yet.\<close>

definition two_children :: state where
  "two_children = poke 1 (\<lambda>x. x\<lparr>percent := 1 / 2\<rparr>) (after_new (Some 0) root_and_child)"

text \<open>
  A small tree: root 0, output 1, workspace 2 with the children 3 and 4; 4 has the
  children 5 and 6, and 5 has the child 7. The workspace and 6 are urgent; 6 and 7 are in
  fullscreen mode.
\<close>

definition desk :: state where
  "desk = \<lparr>heap = (\<lambda>a. zeroed_con)
      (0 := zeroed_con\<lparr>type := CT_ROOT, nodes_head := [1], focus_head := [1]\<rparr>,
       1 := zeroed_con\<lparr>type := CT_OUTPUT, parent := Some 0, nodes_head := [2],
              focus_head := [2]\<rparr>,
       2 := zeroed_con\<lparr>type := CT_WORKSPACE, urgent := True, parent := Some 1,
              nodes_head := [3, 4], focus_head := [3, 4]\<rparr>,
       3 := zeroed_con\<lparr>type := CT_CON, parent := Some 2\<rparr>,
       4 := zeroed_con\<lparr>type := CT_CON, parent := Some 2, nodes_head := [5, 6],
              focus_head := [5, 6]\<rparr>,
       5 := zeroed_con\<lparr>type := CT_CON, parent := Some 4, nodes_head := [7],
              focus_head := [7]\<rparr>,
       6 := zeroed_con\<lparr>type := CT_CON, fullscreen_mode := CF_OUTPUT, urgent := True,
              parent := Some 4\<rparr>,
       7 := zeroed_con\<lparr>type := CT_CON, fullscreen_mode := CF_OUTPUT, parent := Some 5\<rparr>),
     all_cons = [0, 1, 2, 3, 4, 5, 6, 7], focused = None, cnt = 8, next_free = 8, x_log = []\<rparr>"


section \<open>Properties\<close>

subsection \<open>Reading the heap after a write\<close>

lemma heap_poke [simp]: "heap (poke a f s) = (heap s)(a := f (heap s a))"
  by (simp add: poke_def)

lemma poke_fields [simp]:
  "all_cons (poke a f s) = all_cons s" "focused (poke a f s) = focused s"
  "cnt (poke a f s) = cnt s" "next_free (poke a f s) = next_free s"
  "x_log (poke a f s) = x_log s"
  by (simp_all add: poke_def)

lemma call_x_fields [simp]:
  "heap (call_x e s) = heap s" "all_cons (call_x e s) = all_cons s"
  "focused (call_x e s) = focused s" "cnt (call_x e s) = cnt s"
  "next_free (call_x e s) = next_free s" "x_log (call_x e s) = x_log s @ [e]"
  by (simp_all add: call_x_def)


lemmas tailq_defs = TAILQ_INSERT_TAIL_def TAILQ_INSERT_HEAD_def TAILQ_REMOVE_def

lemma root_and_child_heap:
  "heap root_and_child 0 =
     zeroed_con\<lparr>type := CT_CON, name := ''#ff0000'', nodes_head := [1], focus_head := [1]\<rparr>"
  "heap root_and_child 1 =
     zeroed_con\<lparr>type := CT_CON, name := ''#00FF00'', parent := Some 0\<rparr>"
  "cnt root_and_child = 2" "next_free root_and_child = 2"
  by (simp_all add: root_and_child_def after_new_def con_new_def con_attach_def init_state_def
      Let_def colors_def tailq_defs zeroed_con_def)


subsection \<open>Creating a container\<close>

text \<open>The static counter stays within the colours.\<close>

lemma con_new_cnt:
  assumes "cnt s < length colors" and "con_new parent_arg s = Inr (new, s')"
  shows "cnt s' < length colors"
proof -
  have "cnt s' = (if Suc (cnt s) mod length colors = 0 then 0 else Suc (cnt s))"
    using assms by (cases parent_arg) (auto simp: con_new_def Let_def con_attach_def)
  moreover have "length colors = 10" by (simp add: colors_def)
  ultimately show ?thesis using assms(1) by (simp split: if_splits) presburger
qed

text \<open>
  C7, as the code has it. \<^verbatim>\<open>con_new\<close> returns a container with orientation
  \<^verbatim>\<open>NO_ORIENTATION\<close>, no window, fullscreen mode \<^verbatim>\<open>CF_NONE\<close> and urgent false,
  appended to the tail of \<^verbatim>\<open>all_cons\<close>. Its name is not the empty string: the empty
  string is assigned and then overwritten by the colour at the static counter. With a
  NULL parent the container has no parent and no other object changes; with a parent
  (a container allocated earlier) it is at the tail of the parent's \<^verbatim>\<open>nodes_head\<close> and
  \<^verbatim>\<open>focus_head\<close>.
\<close>

theorem con_new_result:
  assumes "cnt s < length colors" and "\<forall>p. parent_arg = Some p \<longrightarrow> p < next_free s"
  shows "\<exists>new s'. con_new parent_arg s = Inr (new, s') \<and>
           name (heap s' new) = colors ! cnt s \<and>
           orientation (heap s' new) = NO_ORIENTATION \<and>
           window (heap s' new) = None \<and>
           fullscreen_mode (heap s' new) = CF_NONE \<and>
           \<not> urgent (heap s' new) \<and>
           all_cons s' = all_cons s @ [new] \<and>
           (parent_arg = None \<longrightarrow>
              parent (heap s' new) = None \<and> (\<forall>a. a \<noteq> new \<longrightarrow> heap s' a = heap s a)) \<and>
           (\<forall>p. parent_arg = Some p \<longrightarrow>
              parent (heap s' new) = Some p \<and>
              nodes_head (heap s' p) = nodes_head (heap s p) @ [new] \<and>
              focus_head (heap s' p) = focus_head (heap s p) @ [new])"
  using assms
  by (cases parent_arg) (auto simp: con_new_def Let_def con_attach_def tailq_defs zeroed_con_def)

theorem con_new_result_witness:
  "cnt root_and_child < length colors \<and> 0 < next_free root_and_child \<and>
   (\<exists>new s'. con_new (Some 0) root_and_child = Inr (new, s') \<and>
      name (heap s' new) = ''#0000FF'' \<and>
      orientation (heap s' new) = NO_ORIENTATION \<and>
      all_cons s' = all_cons root_and_child @ [new] \<and>
      parent (heap s' new) = Some 0 \<and>
      nodes_head (heap s' 0) = [1, new] \<and>
      focus_head (heap s' 0) = [1, new])"
proof -
  have h: "cnt root_and_child < length colors" "0 < next_free root_and_child"
    by (simp_all add: root_and_child_heap colors_def)
  have c: "colors ! cnt root_and_child = ''#0000FF''"
    by (simp add: root_and_child_heap colors_def)
  from con_new_result [of root_and_child "Some 0"] h c show ?thesis
    by (simp del: One_nat_def add: root_and_child_heap) blast
qed

text \<open>
  The first container made at start-up is named after the first colour, not by the
  empty string.
\<close>

theorem con_new_name_counterexample:
  "con_new None init_state \<noteq> Inl Out_of_bounds \<and>
   (case con_new None init_state of Inl e \<Rightarrow> [] | Inr (new, s') \<Rightarrow> name (heap s' new))
     = ''#ff0000''"
  by (simp add: con_new_def init_state_def Let_def colors_def)

subsection \<open>Attaching and detaching\<close>

lemma attach_detach_fields:
  assumes "type (heap s n) \<noteq> CT_FLOATING_CON"
      and "n \<notin> set (nodes_head (heap s p))" and "n \<notin> set (focus_head (heap s p))"
  shows "\<exists>s3. con_detach n (con_attach n p s) = Inr s3 \<and>
           nodes_head (heap s3 p) = nodes_head (heap s p) \<and>
           focus_head (heap s3 p) = focus_head (heap s p)"
  using assms
  by (auto simp: con_detach_def con_attach_def Let_def tailq_defs remove1_append)

text \<open>
  C6. A fresh container \<open>n\<close> (just returned by \<^verbatim>\<open>con_new(NULL)\<close>) is attached to a
  container \<open>p\<close> allocated earlier, whose queues link allocated containers only, and
  detached at once: \<open>p\<close>'s \<^verbatim>\<open>nodes_head\<close> and \<^verbatim>\<open>focus_head\<close> are what they were
  before, in contents and order.
\<close>

theorem attach_detach_restores:
  assumes "con_new None s = Inr (n, s1)"
      and "p < next_free s"
      and "\<forall>x \<in> set (nodes_head (heap s p)) \<union> set (focus_head (heap s p)). x < next_free s"
  shows "\<exists>s3. con_detach n (con_attach n p s1) = Inr s3 \<and>
           nodes_head (heap s3 p) = nodes_head (heap s p) \<and>
           focus_head (heap s3 p) = focus_head (heap s p)"
proof -
  from assms(1) have n: "n = next_free s"
    by (auto simp: con_new_def Let_def split: if_splits)
  from assms(1) have h: "heap s1 p = heap s p" "type (heap s1 n) = CT_CON"
    using assms(2) by (auto simp: con_new_def Let_def split: if_splits)
  have "n \<notin> set (nodes_head (heap s1 p))" "n \<notin> set (focus_head (heap s1 p))"
    using assms(3) n h by auto
  with attach_detach_fields [of s1 n p] h show ?thesis by auto
qed

theorem attach_detach_restores_witness:
  "con_new None root_and_child = Inr (2, after_new None root_and_child) \<and>
   0 < next_free root_and_child \<and>
   nodes_head (heap root_and_child 0) = [1] \<and> focus_head (heap root_and_child 0) = [1] \<and>
   (\<exists>s3. con_detach 2 (con_attach 2 0 (after_new None root_and_child)) = Inr s3 \<and>
      nodes_head (heap s3 0) = [1] \<and> focus_head (heap s3 0) = [1])"
proof -
  have new: "con_new None root_and_child = Inr (2, after_new None root_and_child)"
    by (simp add: after_new_def con_new_def Let_def root_and_child_heap colors_def)
  have h: "0 < next_free root_and_child"
    "nodes_head (heap root_and_child 0) = [1]" "focus_head (heap root_and_child 0) = [1]"
    by (simp_all add: root_and_child_heap)
  have "\<forall>x \<in> set (nodes_head (heap root_and_child 0)) \<union> set (focus_head (heap root_and_child 0)).
          x < next_free root_and_child"
    by (simp add: root_and_child_heap)
  from attach_detach_restores [OF new h(1) this] new h show ?thesis by simp
qed




subsection \<open>Percentages\<close>

lemma count_children: "foldl (\<lambda>k child. k + 1) (k0::32 word) xs = k0 + of_nat (length xs)"
  by (induction xs arbitrary: k0) (simp_all add: algebra_simps)

lemma sint_count:
  assumes "n < 2 ^ 31 - 1"
  shows "sint (of_nat n + 1 :: 32 word) = int n + 1"
proof -
  have e: "(of_nat n + 1 :: 32 word) = of_nat (Suc n)" by simp
  have "sint (of_nat (Suc n) :: 32 word) = signed_take_bit 31 (int (Suc n))"
    by (simp only: signed_of_nat) simp
  also have "\<dots> = int (Suc n)"
    using assms by (intro signed_take_bit_int_eq_self) auto
  finally show ?thesis unfolding e by simp
qed

lemma fix_child_others:
  "a \<notin> set xs \<Longrightarrow> heap (foldl (fix_child fix) s xs) a = heap s a"
  by (induction xs arbitrary: s) (auto simp: fix_child_def)

lemma fix_child_percent:
  "distinct xs \<Longrightarrow> a \<in> set xs \<Longrightarrow>
   percent (heap (foldl (fix_child fix) s xs) a) =
     (if percent (heap s a) \<le> 0 then percent (heap s a) else percent (heap s a) * fix)"
  by (induction xs arbitrary: s) (auto simp: fix_child_def fix_child_others)

lemma fix_child_nodes:
  "nodes_head (heap (foldl (fix_child fix) s xs) a) = nodes_head (heap s a)"
  by (induction xs arbitrary: s) (auto simp: fix_child_def)

lemma con_fix_percent_nodes:
  "nodes_head (heap (con_fix_percent c action s) a) = nodes_head (heap s a)"
  by (simp add: con_fix_percent_def Let_def fix_child_nodes)

lemma fix_factor_count:
  assumes "length xs < 2 ^ 31 - 1"
  shows "fix_factor action (foldl (\<lambda>k child. k + 1) 0 xs) =
      (case action of
         WINDOW_ADD \<Rightarrow> 1 - 1 / (real (length xs) + 1)
       | WINDOW_REMOVE \<Rightarrow> 1 / (1 - 1 / (real (length xs) + 1)))"
  using sint_count [OF assms]
  by (simp add: fix_factor_def count_children split: window_action.split)

lemma con_fix_percent_each:
  assumes "distinct (nodes_head (heap s c))"
      and "length (nodes_head (heap s c)) < 2 ^ 31 - 1"
  shows "percent (heap (con_fix_percent c action s) a) =
          (if a \<in> set (nodes_head (heap s c)) \<and> 0 < percent (heap s a) then
             percent (heap s a) *
               (case action of
                  WINDOW_ADD \<Rightarrow> 1 - 1 / (real (length (nodes_head (heap s c))) + 1)
                | WINDOW_REMOVE \<Rightarrow> 1 / (1 - 1 / (real (length (nodes_head (heap s c))) + 1)))
           else percent (heap s a))"
proof (cases "a \<in> set (nodes_head (heap s c))")
  case True
  with assms(1) fix_factor_count [OF assms(2), of action] show ?thesis
    by (simp add: con_fix_percent_def Let_def fix_child_percent not_le)
next
  case False
  then show ?thesis
    by (simp add: con_fix_percent_def Let_def fix_child_others)
qed

text \<open>
  C4. Let \<open>c\<close> have \<open>n\<close> children, each linked once, \<open>n\<close> within the range of a C
  \<^verbatim>\<open>int\<close>. After \<^verbatim>\<open>con_fix_percent\<close> the percentage of a container is its old one
  times \<open>1 - 1/(n+1)\<close> (for \<^verbatim>\<open>WINDOW_ADD\<close>) or \<open>1 / (1 - 1/(n+1))\<close> (for
  \<^verbatim>\<open>WINDOW_REMOVE\<close>) when it is a child of \<open>c\<close> with a positive percentage, and its old
  one otherwise. Percentages are exact reals here.
\<close>

theorem con_fix_percent_multiplies:
  assumes "distinct (nodes_head (heap s c))"
      and "length (nodes_head (heap s c)) < 2 ^ 31 - 1"
  shows "percent (heap (con_fix_percent c action s) a) =
          (if a \<in> set (nodes_head (heap s c)) \<and> 0 < percent (heap s a) then
             percent (heap s a) *
               (case action of
                  WINDOW_ADD \<Rightarrow> 1 - 1 / (real (length (nodes_head (heap s c))) + 1)
                | WINDOW_REMOVE \<Rightarrow> 1 / (1 - 1 / (real (length (nodes_head (heap s c))) + 1)))
           else percent (heap s a))"
  using assms by (rule con_fix_percent_each)

lemma two_children_heap:
  "nodes_head (heap two_children 0) = [1, 2]"
  "percent (heap two_children 1) = 1 / 2" "percent (heap two_children 2) = 0"
  by (simp_all del: One_nat_def add: two_children_def after_new_def con_new_def con_attach_def
      Let_def colors_def tailq_defs zeroed_con_def root_and_child_heap)

theorem con_fix_percent_multiplies_witness:
  "distinct (nodes_head (heap two_children 0)) \<and>
   length (nodes_head (heap two_children 0)) < 2 ^ 31 - 1 \<and>
   percent (heap (con_fix_percent 0 WINDOW_ADD two_children) 1) = 1 / 3 \<and>
   percent (heap (con_fix_percent 0 WINDOW_ADD two_children) 2) = 0 \<and>
   percent (heap (con_fix_percent 0 WINDOW_REMOVE two_children) 1) = 3 / 4"
proof -
  have h: "distinct (nodes_head (heap two_children 0))"
    "length (nodes_head (heap two_children 0)) < 2 ^ 31 - 1"
    by (simp_all add: two_children_heap)
  from con_fix_percent_multiplies [OF h, of WINDOW_ADD 1]
    con_fix_percent_multiplies [OF h, of WINDOW_ADD 2]
    con_fix_percent_multiplies [OF h, of WINDOW_REMOVE 1] h
  show ?thesis by (simp del: One_nat_def add: two_children_heap)
qed

text \<open>
  C5. With the same children (each linked once, their number within the range of a C
  \<^verbatim>\<open>int\<close>), \<^verbatim>\<open>con_fix_percent\<close> with \<^verbatim>\<open>WINDOW_ADD\<close> followed at once by
  \<^verbatim>\<open>con_fix_percent\<close> with \<^verbatim>\<open>WINDOW_REMOVE\<close> gives every container the percentage it
  had, over exact arithmetic.
\<close>

theorem con_fix_percent_add_remove:
  assumes "distinct (nodes_head (heap s c))"
      and "length (nodes_head (heap s c)) < 2 ^ 31 - 1"
  shows "percent (heap (con_fix_percent c WINDOW_REMOVE (con_fix_percent c WINDOW_ADD s)) a) =
           percent (heap s a)"
proof -
  let ?xs = "nodes_head (heap s c)"
  let ?s1 = "con_fix_percent c WINDOW_ADD s"
  let ?n = "real (length ?xs)"
  have n1: "nodes_head (heap ?s1 c) = ?xs" by (rule con_fix_percent_nodes)
  have add: "percent (heap ?s1 a) =
      (if a \<in> set ?xs \<and> 0 < percent (heap s a) then percent (heap s a) * (1 - 1 / (?n + 1))
       else percent (heap s a))"
    using con_fix_percent_each [OF assms, of WINDOW_ADD a] by simp
  have rem: "percent (heap (con_fix_percent c WINDOW_REMOVE ?s1) a) =
      (if a \<in> set ?xs \<and> 0 < percent (heap ?s1 a) then
         percent (heap ?s1 a) * (1 / (1 - 1 / (?n + 1)))
       else percent (heap ?s1 a))"
    using con_fix_percent_each [of ?s1 c WINDOW_REMOVE a] assms by (simp add: n1)
  show ?thesis
  proof (cases "a \<in> set ?xs \<and> 0 < percent (heap s a)")
    case True
    then have "0 < length ?xs" by (cases ?xs) auto
    then have pos: "0 < 1 - 1 / (?n + 1)" by simp
    with True have "0 < percent (heap ?s1 a)" by (simp add: add)
    with True pos show ?thesis by (simp add: rem add)
  next
    case False
    then show ?thesis by (auto simp: rem add)
  qed
qed

theorem con_fix_percent_add_remove_witness:
  "distinct (nodes_head (heap two_children 0)) \<and>
   length (nodes_head (heap two_children 0)) < 2 ^ 31 - 1 \<and>
   percent (heap (con_fix_percent 0 WINDOW_REMOVE (con_fix_percent 0 WINDOW_ADD two_children)) 1)
     = 1 / 2"
proof -
  have h: "distinct (nodes_head (heap two_children 0))"
    "length (nodes_head (heap two_children 0)) < 2 ^ 31 - 1"
    by (simp_all add: two_children_heap)
  from con_fix_percent_add_remove [OF h, of 1] h
  show ?thesis by (simp del: One_nat_def add: two_children_heap)
qed

subsection \<open>Ancestors\<close>

lemma ancestor_loop_find:
  assumes "links s c xs"
      and "find (\<lambda>y. type (heap s y) = t) (c # xs) = Some w"
      and "length xs < fuel"
  shows "ancestor_loop fuel t s (Some c) = Some (Some w)"
  using assms
proof (induction xs arbitrary: c fuel)
  case Nil
  then show ?case by (cases fuel) (auto split: if_splits)
next
  case (Cons p ps)
  then obtain n where n: "fuel = Suc n" by (cases fuel) auto
  show ?case
  proof (cases "type (heap s c) = t")
    case True
    with Cons.prems show ?thesis by (simp add: n)
  next
    case False
    with Cons.prems have "ancestor_loop n t s (Some p) = Some (Some w)"
      by (intro Cons.IH) (auto simp: n)
    with Cons.prems False show ?thesis by (simp add: n)
  qed
qed

lemma ancestor_loop_root:
  assumes "root_path s c xs"
      and "find (\<lambda>y. type (heap s y) = t) (c # xs) = None"
      and "Suc (length xs) < fuel"
  shows "ancestor_loop fuel t s (Some c) = Some None"
  using assms
proof (induction xs arbitrary: c fuel)
  case Nil
  then obtain n where "fuel = Suc (Suc n)" by (cases fuel) (auto simp: gr0_conv_Suc)
  with Nil show ?case by (simp split: if_splits)
next
  case (Cons p ps)
  then obtain n where n: "fuel = Suc n" by (cases fuel) auto
  from Cons.prems have "ancestor_loop n t s (Some p) = Some None"
    by (intro Cons.IH) (auto simp: n split: if_splits)
  with Cons.prems show ?case by (simp add: n split: if_splits)
qed

text \<open>
  C9. \<^verbatim>\<open>con_get_workspace\<close> and \<^verbatim>\<open>con_get_output\<close> walk the \<^verbatim>\<open>parent\<close> links
  from the container itself. When some container among it and the ancestors \<open>xs\<close>
  has the type looked for, the first such is returned (given fuel for the walk): the
  assertion does not fail.
\<close>

theorem con_get_ancestor_nearest:
  assumes "links s c xs"
      and "find (\<lambda>y. type (heap s y) = t) (c # xs) = Some w"
      and "length xs < fuel"
  shows "(t = CT_WORKSPACE \<longrightarrow> con_get_workspace fuel (Some c) s = Some (Inr w)) \<and>
         (t = CT_OUTPUT \<longrightarrow> con_get_output fuel (Some c) s = Some (Inr w))"
  using ancestor_loop_find [OF assms]
  by (auto simp: con_get_workspace_def con_get_output_def assert_not_null_def)

lemma desk_heap:
  "heap desk 0 = zeroed_con\<lparr>type := CT_ROOT, nodes_head := [1], focus_head := [1]\<rparr>"
  "heap desk 1 = zeroed_con\<lparr>type := CT_OUTPUT, parent := Some 0, nodes_head := [2],
              focus_head := [2]\<rparr>"
  "heap desk 2 = zeroed_con\<lparr>type := CT_WORKSPACE, urgent := True, parent := Some 1,
              nodes_head := [3, 4], focus_head := [3, 4]\<rparr>"
  "heap desk 3 = zeroed_con\<lparr>type := CT_CON, parent := Some 2\<rparr>"
  "heap desk 4 = zeroed_con\<lparr>type := CT_CON, parent := Some 2, nodes_head := [5, 6],
              focus_head := [5, 6]\<rparr>"
  "heap desk 5 = zeroed_con\<lparr>type := CT_CON, parent := Some 4, nodes_head := [7],
              focus_head := [7]\<rparr>"
  "heap desk 6 = zeroed_con\<lparr>type := CT_CON, fullscreen_mode := CF_OUTPUT, urgent := True,
              parent := Some 4\<rparr>"
  "heap desk 7 = zeroed_con\<lparr>type := CT_CON, fullscreen_mode := CF_OUTPUT, parent := Some 5\<rparr>"
  "x_log desk = []"
  by (simp_all add: desk_def)

theorem con_get_ancestor_nearest_witness:
  "links desk 6 [4, 2] \<and>
   find (\<lambda>y. type (heap desk y) = CT_WORKSPACE) [6, 4, 2] = Some 2 \<and>
   length [4, 2 :: addr] < 3 \<and>
   con_get_workspace 3 (Some 6) desk = Some (Inr 2) \<and>
   links desk 6 [4, 2, 1] \<and>
   find (\<lambda>y. type (heap desk y) = CT_OUTPUT) [6, 4, 2, 1] = Some 1 \<and>
   length [4, 2, 1 :: addr] < 4 \<and>
   con_get_output 4 (Some 6) desk = Some (Inr 1)"
proof -
  have w: "links desk 6 [4, 2]"
    "find (\<lambda>y. type (heap desk y) = CT_WORKSPACE) [6, 4, 2] = Some 2"
    "length [4, 2 :: addr] < 3"
    by (simp_all del: One_nat_def add: desk_heap zeroed_con_def)
  have out: "links desk 6 [4, 2, 1]"
    "find (\<lambda>y. type (heap desk y) = CT_OUTPUT) [6, 4, 2, 1] = Some 1"
    "length [4, 2, 1 :: addr] < 4"
    by (simp_all del: One_nat_def add: desk_heap zeroed_con_def)
  from con_get_ancestor_nearest [OF w] con_get_ancestor_nearest [OF out] w out
  show ?thesis by simp
qed

text \<open>Without such a container on the path to the root, the assertion fails.\<close>

lemma con_get_ancestor_fails:
  assumes "root_path s c xs"
      and "find (\<lambda>y. type (heap s y) = t) (c # xs) = None"
      and "Suc (length xs) < fuel"
  shows "(t = CT_WORKSPACE \<longrightarrow> con_get_workspace fuel (Some c) s = Some (Inl Assertion_failed)) \<and>
         (t = CT_OUTPUT \<longrightarrow> con_get_output fuel (Some c) s = Some (Inl Assertion_failed))"
  using ancestor_loop_root [OF assms]
  by (auto simp: con_get_workspace_def con_get_output_def assert_not_null_def)

subsection \<open>Paths\<close>

lemma root_path_links: "root_path s c ps \<Longrightarrow> links s c ps"
  by (induction ps arbitrary: c) auto

lemma root_path_unique: "root_path s c ps \<Longrightarrow> root_path s c qs \<Longrightarrow> ps = qs"
proof (induction ps arbitrary: c qs)
  case Nil
  then show ?case by (cases qs) auto
next
  case (Cons p ps)
  then show ?case by (cases qs) auto
qed

lemma root_path_suffix: "root_path s c (as @ x # bs) \<Longrightarrow> root_path s x bs"
  by (induction as arbitrary: c) auto

lemma root_path_not_self:
  assumes "root_path s c ps"
  shows "c \<notin> set ps"
proof
  assume "c \<in> set ps"
  then obtain as bs where ps: "ps = as @ c # bs" by (auto dest: split_list)
  with assms have "root_path s c bs" by (auto dest: root_path_suffix)
  with assms have "ps = bs" by (rule root_path_unique)
  with ps show False by simp
qed

lemma root_path_distinct: "root_path s c ps \<Longrightarrow> distinct (c # ps)"
proof (induction ps arbitrary: c)
  case Nil
  then show ?case by simp
next
  case (Cons p ps)
  from Cons.prems have "root_path s p ps" by simp
  then have "distinct (p # ps)" by (rule Cons.IH)
  with root_path_not_self [OF Cons.prems] show ?case by simp
qed

lemma links_cong:
  "(\<And>a. parent (heap s' a) = parent (heap s a)) \<Longrightarrow> links s' c ps = links s c ps"
  by (induction ps arbitrary: c) auto

lemma root_path_cong:
  "(\<And>a. parent (heap s' a) = parent (heap s a)) \<Longrightarrow> root_path s' c ps = root_path s c ps"
  by (induction ps arbitrary: c) auto


subsection \<open>Focus\<close>

lemma promote_fields [simp]:
  "heap (promote p c s) = (heap s)(p := (heap s p)\<lparr>focus_head := c # remove1 c (focus_head (heap s p))\<rparr>)"
  "all_cons (promote p c s) = all_cons s" "focused (promote p c s) = focused s"
  "cnt (promote p c s) = cnt s" "next_free (promote p c s) = next_free s"
  "x_log (promote p c s) = x_log s"
  by (simp_all add: promote_def)

lemma two_pokes_promote:
  "poke p (\<lambda>x. x\<lparr>focus_head := TAILQ_INSERT_HEAD (focus_head x) c\<rparr>)
     (poke p (\<lambda>x. x\<lparr>focus_head := TAILQ_REMOVE (focus_head x) c\<rparr>) s) = promote p c s"
  by (simp add: poke_def promote_def tailq_defs)

lemma finish_heap:
  "heap (finish c rest s) a =
     (if a = c \<and> urgent (heap s c) then (heap s c)\<lparr>urgent := False\<rparr> else heap s a)"
  by (simp add: finish_def Let_def split: option.split)

lemma finish_fields [simp]:
  "all_cons (finish c rest s) = all_cons s" "focused (finish c rest s) = Some c"
  "cnt (finish c rest s) = cnt s" "next_free (finish c rest s) = next_free s"
  by (simp_all add: finish_def Let_def split: option.split)

lemma focus_path_parent [simp]: "parent (heap (focus_path ps s) a) = parent (heap s a)"
  by (induction ps s rule: focus_path.induct) (auto simp: finish_heap)

lemma focus_path_type [simp]: "type (heap (focus_path ps s) a) = type (heap s a)"
  by (induction ps s rule: focus_path.induct) (auto simp: finish_heap)

lemma focus_path_nodes_head [simp]:
  "nodes_head (heap (focus_path ps s) a) = nodes_head (heap s a)"
  by (induction ps s rule: focus_path.induct) (auto simp: finish_heap)

lemma focus_path_floating_head [simp]:
  "floating_head (heap (focus_path ps s) a) = floating_head (heap s a)"
  by (induction ps s rule: focus_path.induct) (auto simp: finish_heap)

lemma focus_path_all_cons [simp]: "all_cons (focus_path ps s) = all_cons s"
  by (induction ps s rule: focus_path.induct) auto

lemma focus_path_urgent:
  "urgent (heap (focus_path ps s) a) = (urgent (heap s a) \<and> a \<notin> set (butlast ps))"
  by (induction ps s rule: focus_path.induct) (auto simp: finish_heap)

lemma focus_path_focused: "focused (focus_path (c # p # ps) s) = Some c"
  by (simp add: focus_path.simps)

lemma focus_path_focus_other:
  "a \<notin> set (tl ps) \<Longrightarrow> focus_head (heap (focus_path ps s) a) = focus_head (heap s a)"
  by (induction ps s rule: focus_path.induct) (auto simp: finish_heap)

lemma focus_path_focus_nth:
  "distinct (tl ps) \<Longrightarrow> i < length (tl ps) \<Longrightarrow>
   focus_head (heap (focus_path ps s) (tl ps ! i)) =
     ps ! i # remove1 (ps ! i) (focus_head (heap s (tl ps ! i)))"
proof (induction ps s arbitrary: i rule: focus_path.induct)
  case (1 c p ps s)
  show ?case
  proof (cases i)
    case 0
    with "1.prems" show ?thesis
      by (auto simp: finish_heap focus_path_focus_other)
  next
    case (Suc j)
    with "1.prems" have j: "j < length ps" "distinct ps" "ps ! j \<noteq> p" by auto
    with "1.IH" [of j] have
      "focus_head (heap (focus_path (p # ps) (promote p c s)) (ps ! j)) =
         (p # ps) ! j # remove1 ((p # ps) ! j) (focus_head (heap (promote p c s) (ps ! j)))"
      by simp
    with j Suc show ?thesis by (auto simp: finish_heap)
  qed
qed simp_all


declare focus_path.simps [simp del]

lemma is_workspace_cong:
  "(\<And>a. type (heap s' a) = type (heap s a)) \<Longrightarrow> is_workspace s' = is_workspace s"
  by (auto simp: is_workspace_def fun_eq_iff)

lemma urgent_ok_cong:
  assumes "\<And>a. type (heap s' a) = type (heap s a)"
      and "\<And>a. a \<in> set ps \<Longrightarrow> urgent (heap s' a) = urgent (heap s a)"
  shows "urgent_ok s' ps = urgent_ok s ps"
proof -
  have w: "is_workspace s' = is_workspace s"
    using assms(1) by (rule is_workspace_cong)
  from assms(2) show ?thesis
    by (induction ps rule: induct_list012) (simp_all add: w)
qed

lemma con_focus_finish_eq:
  assumes "links s c rest"
      and "urgent (heap s c) \<longrightarrow> (\<exists>w \<in> set (c # rest). is_workspace s w)"
      and "length rest < n"
  shows "con_focus_finish n c s = Some (Inr (finish c rest s))"
proof (cases "urgent (heap s c)")
  case False
  then show ?thesis by (simp add: con_focus_finish_def finish_def)
next
  case True
  let ?s2 = "poke c (\<lambda>x. x\<lparr>urgent := False\<rparr>) (s\<lparr>focused := Some c\<rparr>)"
  from True assms(2) obtain w where w: "find (is_workspace s) (c # rest) = Some w"
    by (cases "find (is_workspace s) (c # rest)") (auto simp: find_None_iff simp del: find.simps)
  have same: "(\<lambda>y. type (heap ?s2 y) = CT_WORKSPACE) = is_workspace s"
    by (auto simp: is_workspace_def fun_eq_iff)
  have "links ?s2 c rest"
    using assms(1) by (subst links_cong [of _ s]) auto
  with w assms(3) have "ancestor_loop n CT_WORKSPACE ?s2 (Some c) = Some (Some w)"
    by (intro ancestor_loop_find) (simp_all only: same)
  with True w show ?thesis
    by (simp add: con_focus_finish_def finish_def Let_def con_get_workspace_def
        assert_not_null_def)
qed

lemma con_focus_step:
  assumes "parent (heap s c) = Some p" and "c \<noteq> p"
  shows "con_focus (Suc n) (Some c) s =
    (if parent (heap s p) \<noteq> None then
       case con_focus n (Some p) (promote p c s) of
         None \<Rightarrow> None
       | Some (Inl e) \<Rightarrow> Some (Inl e)
       | Some (Inr s3) \<Rightarrow> con_focus_finish n c s3
     else con_focus_finish n c (promote p c s))"
  using assms by (simp add: Let_def two_pokes_promote)

lemma con_focus_path:
  assumes "root_path s c (p # ps)"
      and "urgent_ok s (c # p # ps)"
      and "length (c # p # ps) < fuel"
  shows "con_focus fuel (Some c) s = Some (Inr (focus_path (c # p # ps) s))"
  using assms
proof (induction ps arbitrary: c p s fuel)
  case Nil
  then obtain n where n: "fuel = Suc n" "1 < n" by (cases fuel) auto
  let ?s2 = "promote p c s"
  from Nil.prems have par: "parent (heap s c) = Some p" "parent (heap s p) = None" by auto
  then have cp: "c \<noteq> p" by auto
  have "links ?s2 c [p]" using par cp by simp
  moreover have "urgent (heap ?s2 c) \<longrightarrow> (\<exists>w \<in> set [c, p]. is_workspace ?s2 w)"
    using Nil.prems(2) cp by (auto simp: is_workspace_def)
  ultimately have "con_focus_finish n c ?s2 = Some (Inr (finish c [p] ?s2))"
    using n by (intro con_focus_finish_eq) auto
  with par cp show ?case
    by (simp add: n con_focus_step focus_path.simps del: con_focus.simps)
next
  case (Cons q qs)
  then obtain n where n: "fuel = Suc n" "length (p # q # qs) < n" by (cases fuel) auto
  let ?s2 = "promote p c s"
  let ?s3 = "focus_path (p # q # qs) ?s2"
  from Cons.prems have par: "parent (heap s c) = Some p" "parent (heap s p) = Some q" by auto
  from Cons.prems(1) have dist: "distinct (c # p # q # qs)" by (rule root_path_distinct)
  have rp: "root_path ?s2 p (q # qs)"
    using Cons.prems(1) by (subst root_path_cong [of _ s]) auto
  have uo: "urgent_ok ?s2 (p # q # qs)"
    using Cons.prems(2) by (subst urgent_ok_cong [of _ s]) auto
  from Cons.IH [OF rp uo n(2)]
  have rec: "con_focus n (Some p) ?s2 = Some (Inr ?s3)" .
  have "links s c (p # q # qs)" using Cons.prems(1) by (rule root_path_links)
  then have l3: "links ?s3 c (p # q # qs)"
    by (subst links_cong [of _ s]) simp_all
  have u3: "urgent (heap ?s3 c) = urgent (heap s c)"
    using dist by (auto simp: focus_path_urgent dest: in_set_butlastD)
  have w3: "is_workspace ?s3 = is_workspace s"
    by (rule is_workspace_cong) simp
  have "urgent (heap ?s3 c) \<longrightarrow> (\<exists>w \<in> set (c # p # q # qs). is_workspace ?s3 w)"
    using Cons.prems(2) unfolding u3 w3 by simp
  with l3 n have fin: "con_focus_finish n c ?s3 = Some (Inr (finish c (p # q # qs) ?s3))"
    by (intro con_focus_finish_eq) auto
  from dist have "c \<noteq> p" by simp
  with par rec fin show ?case
    by (simp add: n con_focus_step focus_path.simps del: con_focus.simps)
qed


lemma finish_log:
  "x_log (finish c rest s) =
     (if urgent (heap s c) then
        case find (is_workspace s) (c # rest) of
          None \<Rightarrow> x_log s
        | Some w \<Rightarrow> x_log s @ [Workspace_update_urgent_flag w]
      else x_log s)"
  by (simp add: finish_def Let_def split: option.split)

lemma butlast_Cons2: "butlast (c # p # ps) = c # butlast (p # ps)"
  by simp

lemma focus_path_log:
  assumes "distinct ps" and "urgent_ok s ps"
  shows "\<exists>ws. x_log (focus_path ps s) = x_log s @ map Workspace_update_urgent_flag ws \<and>
           length ws = length (filter (\<lambda>a. urgent (heap s a)) (butlast ps)) \<and>
           (\<forall>w \<in> set ws. is_workspace s w)"
  using assms
proof (induction ps s rule: focus_path.induct)
  case (1 c p ps s)
  let ?s2 = "promote p c s"
  let ?s3 = "focus_path (p # ps) ?s2"
  have w2: "is_workspace ?s2 = is_workspace s" by (rule is_workspace_cong) simp
  have u2: "(\<lambda>a. urgent (heap ?s2 a)) = (\<lambda>a. urgent (heap s a))"
    by (auto simp: fun_eq_iff)
  have uo: "urgent_ok ?s2 (p # ps)"
    using "1.prems"(2) by (subst urgent_ok_cong [of _ s]) auto
  from "1.prems"(1) have "distinct (p # ps)" by simp
  from "1.IH" [OF this uo] obtain ws where ws:
    "x_log ?s3 = x_log s @ map Workspace_update_urgent_flag ws"
    "length ws = length (filter (\<lambda>a. urgent (heap s a)) (butlast (p # ps)))"
    "\<forall>w \<in> set ws. is_workspace s w"
    unfolding w2 u2 promote_fields(6) by blast
  have u3: "urgent (heap ?s3 c) = urgent (heap s c)"
    using "1.prems"(1) by (auto simp: focus_path_urgent dest: in_set_butlastD)
  have w3: "is_workspace ?s3 = is_workspace s" by (rule is_workspace_cong) simp
  show ?case
  proof (cases "urgent (heap s c)")
    case False
    with ws u3 show ?thesis
      by (intro exI [of _ ws])
        (simp add: focus_path.simps finish_log butlast_Cons2 del: butlast.simps)
  next
    case True
    with "1.prems"(2) obtain w where w: "find (is_workspace s) (c # p # ps) = Some w"
      by (cases "find (is_workspace s) (c # p # ps)")
        (auto simp: find_None_iff simp del: find.simps)
    then have "is_workspace s w" by (auto simp: find_Some_iff simp del: find.simps)
    with ws True have
      "x_log s @ map Workspace_update_urgent_flag ws @ [Workspace_update_urgent_flag w] =
         x_log s @ map Workspace_update_urgent_flag (ws @ [w]) \<and>
       length (ws @ [w]) = length (filter (\<lambda>a. urgent (heap s a)) (butlast (c # p # ps))) \<and>
       (\<forall>v \<in> set (ws @ [w]). is_workspace s v)"
      by (simp add: butlast_Cons2 del: butlast.simps)
    moreover have "x_log (focus_path (c # p # ps) s) =
        x_log s @ map Workspace_update_urgent_flag ws @ [Workspace_update_urgent_flag w]"
      using True w ws(1) by (simp add: focus_path.simps finish_log u3 w3 del: find.simps)
    ultimately show ?thesis by metis
  qed
qed (simp_all add: focus_path.simps)

text \<open>
  C2. Let \<open>c\<close> have the parent \<open>p\<close> and the further ancestors \<open>ps\<close>, the last of
  them the root; each container on the path is linked in the \<^verbatim>\<open>focus_head\<close> of the
  next, and each urgent one has a workspace at or above it (so that no assertion fails).
  Then, given fuel for the depth, \<^verbatim>\<open>con_focus\<close> returns. In the \<^verbatim>\<open>focus_head\<close> of every
  container on the path above \<open>c\<close>, its child on the path is now at the head and the
  others follow in their old order; every other \<^verbatim>\<open>focus_head\<close>, and every
  \<^verbatim>\<open>nodes_head\<close> and \<^verbatim>\<open>floating_head\<close>, is unchanged; \<^verbatim>\<open>focused\<close> is \<open>c\<close>.
\<close>

theorem con_focus_promotes:
  assumes "root_path s c (p # ps)"
      and "on_focus_lists s (c # p # ps)"
      and "urgent_ok s (c # p # ps)"
      and "length (c # p # ps) < fuel"
  shows "\<exists>s'. con_focus fuel (Some c) s = Some (Inr s') \<and>
           (\<forall>i < length (p # ps).
              focus_head (heap s' ((p # ps) ! i)) =
                (c # p # ps) ! i # remove1 ((c # p # ps) ! i) (focus_head (heap s ((p # ps) ! i)))) \<and>
           (\<forall>a. a \<notin> set (p # ps) \<longrightarrow> focus_head (heap s' a) = focus_head (heap s a)) \<and>
           (\<forall>a. nodes_head (heap s' a) = nodes_head (heap s a)) \<and>
           (\<forall>a. floating_head (heap s' a) = floating_head (heap s a)) \<and>
           focused s' = Some c"
proof -
  let ?s' = "focus_path (c # p # ps) s"
  from assms(1) have "distinct (c # p # ps)" by (rule root_path_distinct)
  then have d: "distinct (tl (c # p # ps))" by simp
  have "\<forall>i < length (p # ps).
      focus_head (heap ?s' ((p # ps) ! i)) =
        (c # p # ps) ! i # remove1 ((c # p # ps) ! i) (focus_head (heap s ((p # ps) ! i)))"
    using focus_path_focus_nth [OF d, of _ s] by simp
  moreover have "\<forall>a. a \<notin> set (p # ps) \<longrightarrow> focus_head (heap ?s' a) = focus_head (heap s a)"
    using focus_path_focus_other [of _ "c # p # ps" s] by simp
  moreover have "focused ?s' = Some c" by (rule focus_path_focused)
  moreover have "con_focus fuel (Some c) s = Some (Inr ?s')"
    using assms(1,3,4) by (rule con_focus_path)
  ultimately show ?thesis by simp
qed

text \<open>
  C10. Under the same conditions \<^verbatim>\<open>con_focus\<close> clears the urgent flag of \<open>c\<close> and
  of every ancestor below the root (the path without its last container) and of no other
  container; it calls \<^verbatim>\<open>workspace_update_urgent_flag\<close> once for each flag that was
  set, each time on a workspace; and \<^verbatim>\<open>focused\<close> is \<open>c\<close> itself at the end.
\<close>

theorem con_focus_clears_urgent:
  assumes "root_path s c (p # ps)"
      and "on_focus_lists s (c # p # ps)"
      and "urgent_ok s (c # p # ps)"
      and "length (c # p # ps) < fuel"
  shows "\<exists>s' ws. con_focus fuel (Some c) s = Some (Inr s') \<and>
           (\<forall>a. urgent (heap s' a) = (urgent (heap s a) \<and> a \<notin> set (butlast (c # p # ps)))) \<and>
           x_log s' = x_log s @ map Workspace_update_urgent_flag ws \<and>
           length ws = length (filter (\<lambda>a. urgent (heap s a)) (butlast (c # p # ps))) \<and>
           (\<forall>w \<in> set ws. is_workspace s w) \<and>
           focused s' = Some c"
proof -
  let ?s' = "focus_path (c # p # ps) s"
  from assms(1) have "distinct (c # p # ps)" by (rule root_path_distinct)
  from focus_path_log [OF this assms(3)] obtain ws where
    "x_log ?s' = x_log s @ map Workspace_update_urgent_flag ws"
    "length ws = length (filter (\<lambda>a. urgent (heap s a)) (butlast (c # p # ps)))"
    "\<forall>w \<in> set ws. is_workspace s w"
    by blast
  moreover have "\<forall>a. urgent (heap ?s' a) = (urgent (heap s a) \<and> a \<notin> set (butlast (c # p # ps)))"
    by (simp add: focus_path_urgent)
  moreover have "focused ?s' = Some c" by (rule focus_path_focused)
  moreover have "con_focus fuel (Some c) s = Some (Inr ?s')"
    using assms(1,3,4) by (rule con_focus_path)
  ultimately show ?thesis by blast
qed

lemma desk_path:
  "root_path desk 6 [4, 2, 1, 0]" "on_focus_lists desk [6, 4, 2, 1, 0]"
  "urgent_ok desk [6, 4, 2, 1, 0]"
  by (simp_all del: One_nat_def add: desk_heap zeroed_con_def is_workspace_def)

theorem con_focus_promotes_witness:
  "root_path desk 6 [4, 2, 1, 0] \<and> on_focus_lists desk [6, 4, 2, 1, 0] \<and>
   urgent_ok desk [6, 4, 2, 1, 0] \<and> length [6, 4, 2, 1, 0 :: addr] < 6 \<and>
   (\<exists>s'. con_focus 6 (Some 6) desk = Some (Inr s') \<and>
      focus_head (heap s' 4) = [6, 5] \<and> focus_head (heap s' 2) = [4, 3] \<and>
      focus_head (heap s' 1) = [2] \<and> focus_head (heap s' 0) = [1] \<and>
      focus_head (heap s' 5) = [7] \<and> nodes_head (heap s' 4) = [5, 6] \<and>
      focused s' = Some 6)"
proof -
  have l: "length [6, 4, 2, 1, 0 :: addr] < 6" by simp
  from con_focus_promotes [OF desk_path l] obtain s' where s':
    "con_focus 6 (Some 6) desk = Some (Inr s')"
    "\<forall>i < length [4, 2, 1, 0 :: addr]. focus_head (heap s' ([4, 2, 1, 0] ! i)) =
        [6, 4, 2, 1, 0] ! i # remove1 ([6, 4, 2, 1, 0] ! i) (focus_head (heap desk ([4, 2, 1, 0] ! i)))"
    "\<forall>a. a \<notin> set [4, 2, 1, 0] \<longrightarrow> focus_head (heap s' a) = focus_head (heap desk a)"
    "\<forall>a. nodes_head (heap s' a) = nodes_head (heap desk a)"
    "focused s' = Some 6"
    by blast
  from s'(2) [rule_format, of 0] s'(2) [rule_format, of 1] s'(2) [rule_format, of 2]
    s'(2) [rule_format, of 3] s'(3) [rule_format, of 5]
  have "focus_head (heap s' 4) = [6, 5]" "focus_head (heap s' 2) = [4, 3]"
    "focus_head (heap s' 1) = [2]" "focus_head (heap s' 0) = [1]" "focus_head (heap s' 5) = [7]"
    by (simp_all del: One_nat_def add: desk_heap)
  moreover from s'(4) have "nodes_head (heap s' 4) = [5, 6]" by (simp add: desk_heap)
  ultimately show ?thesis using desk_path l s'(1,5) by blast
qed

theorem con_focus_clears_urgent_witness:
  "root_path desk 6 [4, 2, 1, 0] \<and> on_focus_lists desk [6, 4, 2, 1, 0] \<and>
   urgent_ok desk [6, 4, 2, 1, 0] \<and> length [6, 4, 2, 1, 0 :: addr] < 6 \<and>
   urgent (heap desk 6) \<and> urgent (heap desk 2) \<and>
   (\<exists>s' ws. con_focus 6 (Some 6) desk = Some (Inr s') \<and>
      \<not> urgent (heap s' 6) \<and> \<not> urgent (heap s' 2) \<and>
      x_log s' = map Workspace_update_urgent_flag ws \<and> length ws = 2 \<and>
      focused s' = Some 6)"
proof -
  have l: "length [6, 4, 2, 1, 0 :: addr] < 6" by simp
  have u: "urgent (heap desk 6)" "urgent (heap desk 2)" by (simp_all add: desk_heap)
  have n: "length (filter (\<lambda>a. urgent (heap desk a)) (butlast [6, 4, 2, 1, 0])) = 2"
    by (simp del: One_nat_def add: desk_heap zeroed_con_def)
  from con_focus_clears_urgent [OF desk_path l] obtain s' ws where s':
    "con_focus 6 (Some 6) desk = Some (Inr s')"
    "\<forall>a. urgent (heap s' a) = (urgent (heap desk a) \<and> a \<notin> set (butlast [6, 4, 2, 1, 0]))"
    "x_log s' = x_log desk @ map Workspace_update_urgent_flag ws"
    "length ws = length (filter (\<lambda>a. urgent (heap desk a)) (butlast [6, 4, 2, 1, 0]))"
    "focused s' = Some 6"
    by blast
  from s'(2) have "\<not> urgent (heap s' 6)" "\<not> urgent (heap s' 2)" by simp_all
  moreover from s'(3) have "x_log s' = map Workspace_update_urgent_flag ws"
    by (simp add: desk_heap)
  moreover from s'(4) n have "length ws = 2" by simp
  ultimately show ?thesis using desk_path l u s'(1,5) by blast
qed

text \<open>
  The condition on the urgent containers is needed: when an urgent container on the
  path, below the root, has no workspace at or above it, \<^verbatim>\<open>con_focus\<close> ends in the
  failed assertion of \<^verbatim>\<open>con_get_workspace\<close>.
\<close>

lemma con_focus_finish_aborts:
  assumes "root_path s c rest"
      and "urgent (heap s c)"
      and "\<forall>w \<in> set (c # rest). \<not> is_workspace s w"
      and "Suc (length rest) < n"
  shows "con_focus_finish n c s = Some (Inl Assertion_failed)"
proof -
  let ?s2 = "poke c (\<lambda>x. x\<lparr>urgent := False\<rparr>) (s\<lparr>focused := Some c\<rparr>)"
  have rp: "root_path ?s2 c rest"
    using assms(1) by (subst root_path_cong [of _ s]) auto
  have "find (\<lambda>y. type (heap ?s2 y) = CT_WORKSPACE) (c # rest) = None"
    using assms(3) by (auto simp: find_None_iff is_workspace_def simp del: find.simps)
  with rp assms(4) have "ancestor_loop n CT_WORKSPACE ?s2 (Some c) = Some None"
    by (intro ancestor_loop_root)
  with assms(2) show ?thesis
    by (simp add: con_focus_finish_def Let_def con_get_workspace_def assert_not_null_def)
qed

lemma con_focus_aborts:
  assumes "root_path s c (p # ps)"
      and "\<not> urgent_ok s (c # p # ps)"
      and "Suc (length (c # p # ps)) < fuel"
  shows "con_focus fuel (Some c) s = Some (Inl Assertion_failed)"
  using assms
proof (induction ps arbitrary: c p s fuel)
  case Nil
  then obtain n where n: "fuel = Suc n" "2 < n" by (cases fuel) auto
  let ?s2 = "promote p c s"
  from Nil.prems have par: "parent (heap s c) = Some p" "parent (heap s p) = None" by auto
  then have cp: "c \<noteq> p" by auto
  have r2: "root_path ?s2 c [p]" using par cp by simp
  have b2: "urgent (heap ?s2 c)" "\<forall>w \<in> set [c, p]. \<not> is_workspace ?s2 w"
    using Nil.prems(2) cp by (auto simp: is_workspace_def)
  have "Suc (length [p]) < n" using n by simp
  with r2 b2 have "con_focus_finish n c ?s2 = Some (Inl Assertion_failed)"
    by (rule con_focus_finish_aborts)
  with par cp show ?case
    by (simp add: n con_focus_step del: con_focus.simps)
next
  case (Cons q qs)
  then obtain n where n: "fuel = Suc n" "Suc (length (p # q # qs)) < n" by (cases fuel) auto
  let ?s2 = "promote p c s"
  let ?s3 = "focus_path (p # q # qs) ?s2"
  from Cons.prems have par: "parent (heap s c) = Some p" "parent (heap s p) = Some q" by auto
  from Cons.prems(1) have dist: "distinct (c # p # q # qs)" by (rule root_path_distinct)
  then have cp: "c \<noteq> p" by simp
  have rp: "root_path ?s2 p (q # qs)"
    using Cons.prems(1) by (subst root_path_cong [of _ s]) auto
  have uo: "urgent_ok ?s2 (p # q # qs) = urgent_ok s (p # q # qs)"
    by (rule urgent_ok_cong) auto
  show ?case
  proof (cases "urgent_ok s (p # q # qs)")
    case False
    with uo have "\<not> urgent_ok ?s2 (p # q # qs)" by simp
    from Cons.IH [OF rp this n(2)]
    have "con_focus n (Some p) ?s2 = Some (Inl Assertion_failed)" .
    with par cp show ?thesis
      by (simp add: n con_focus_step del: con_focus.simps)
  next
    case True
    with Cons.prems(2) have bad: "urgent (heap s c)"
      "\<forall>w \<in> set (c # p # q # qs). \<not> is_workspace s w"
      by auto
    from True uo have "urgent_ok ?s2 (p # q # qs)" by simp
    with rp n(2) have rec: "con_focus n (Some p) ?s2 = Some (Inr ?s3)"
      by (intro con_focus_path) auto
    have r3: "root_path ?s3 c (p # q # qs)"
      using Cons.prems(1) by (subst root_path_cong [of _ s]) simp_all
    have u3: "urgent (heap ?s3 c)"
      using dist bad(1) by (auto simp: focus_path_urgent dest: in_set_butlastD)
    have "is_workspace ?s3 = is_workspace s"
      by (rule is_workspace_cong) simp
    with bad(2) have w3: "\<forall>w \<in> set (c # p # q # qs). \<not> is_workspace ?s3 w" by simp
    from r3 u3 w3 n(2) have "con_focus_finish n c ?s3 = Some (Inl Assertion_failed)"
      by (rule con_focus_finish_aborts)
    with par cp rec show ?thesis
      by (simp add: n con_focus_step del: con_focus.simps)
  qed
qed

subsection \<open>Fullscreen\<close>



lemma kids_Nil [simp]: "kids s [] = []"
  by (simp add: kids_def)








lemma generation_Nil [simp]: "generation s k [] = []"
  by (induction k) simp_all
















lemma push_net_wm_state_heap [simp]: "heap (push_net_wm_state c s) = heap s"
  by (simp add: push_net_wm_state_def Let_def split: option.split)









end
